theory Spec2Isabelle
  imports Main "HOL-Library.AList" "HOL-Library.Char_ord" "HOL-Library.List_Lexorder"
    "HOL-Library.Multiset"
begin

section \<open>Phoneme analysis toolbox: \<^verbatim>\<open>text/phoneme_analysis.py\<close>\<close>

text \<open>
  A shallow embedding of the classes \<^verbatim>\<open>Passage\<close> and \<^verbatim>\<open>Corpus\<close>.

  \<^item> Python text (\<^verbatim>\<open>str\<close>) is a list of Unicode code points: \<open>ustring\<close>. The
    right single quotation mark U+2019 that the normaliser replaces is one code point.
  \<^item> A phoneme symbol of the CMU dictionary (\<^verbatim>\<open>'AH0'\<close>, \<^verbatim>\<open>'K'\<close>) is a \<open>string\<close>: a
    list of code points below 256. On those \<^verbatim>\<open>\d\<close> matches exactly \<^verbatim>\<open>0\<close> to \<^verbatim>\<open>9\<close>.
  \<^item> A Python \<^verbatim>\<open>dict\<close> that the code sorts or iterates is an association list in
    insertion order with distinct keys; \<open>AList.update\<close> overwrites a key in place and
    appends a new key at the end, as assignment to a \<^verbatim>\<open>dict\<close> entry does.
  \<^item> Counts are Python integers: \<open>int\<close>. Lengths and indices are \<open>nat\<close>.
  \<^item> An exception is a value of \<open>error\<close>; a function that can raise returns
    \<open>error + 'a\<close>.
\<close>

type_synonym codepoint = nat
type_synonym ustring = "codepoint list"
type_synonym phoneme = string

datatype error = KeyError | IndexError | ValueError

type_synonym count_table = "(phoneme \<times> int) list"
type_synonym pos_table = "(phoneme \<times> int list) list"

subsection \<open>\<^verbatim>\<open>Passage.__get_phoneme_stats\<close>\<close>

definition is_digit :: "char \<Rightarrow> bool" where
  "is_digit c = (c \<in> set ''0123456789'')"

text \<open>
  \<^verbatim>\<open>re.sub(r'\d$', '', p)\<close>: \<^verbatim>\<open>$\<close> matches at the end of the string and also just
  before a newline that ends the string, so the digit removed is the last character, or
  the one before a final newline.
\<close>

fun remove_stress_marker :: "phoneme \<Rightarrow> phoneme" where
  "remove_stress_marker [] = []"
| "remove_stress_marker [c] = (if is_digit c then [] else [c])"
| "remove_stress_marker [c, d] =
     (if is_digit d then [c]
      else if is_digit c \<and> d = CHR 0x0A then [d]
      else [c, d])"
| "remove_stress_marker (c # cs) = c # remove_stress_marker cs"

definition stress_form :: "bool \<Rightarrow> phoneme \<Rightarrow> phoneme" where
  "stress_form ignore_stress p = (if ignore_stress then remove_stress_marker p else p)"

text \<open>
  The body of the inner loop, for the phoneme \<open>p0\<close> at index \<open>i\<close> of a variant of
  \<open>n_ph\<close> phonemes. \<open>n_ph - 1\<close> is only computed under \<open>2 \<le> n_ph\<close>, where the
  subtraction on \<open>nat\<close> is the one on Python's integers.
\<close>

definition count_phoneme ::
  "bool \<Rightarrow> nat \<Rightarrow> count_table \<times> pos_table \<Rightarrow> nat \<times> phoneme \<Rightarrow>
     error + (count_table \<times> pos_table)" where
  "count_phoneme ignore_stress n_ph tabs ip =
     (let (phoneme_count, phoneme_count_by_pos) = tabs;
          (i, p0) = ip;
          p = stress_form ignore_stress p0;
          phoneme_count =
            (case map_of phoneme_count p of
               Some c \<Rightarrow> AList.update p (c + 1) phoneme_count
             | None \<Rightarrow> AList.update p 1 phoneme_count);
          phoneme_count_by_pos =
            (if map_of phoneme_count_by_pos p = None
             then AList.update p [0, 0, 0] phoneme_count_by_pos
             else phoneme_count_by_pos)
      in if 2 \<le> n_ph then
           (let pos_idx = (if 0 < i then (if i = n_ph - 1 then 2 else 1) else (0::nat))
            in case map_of phoneme_count_by_pos p of
                 None \<Rightarrow> Inl KeyError
               | Some v \<Rightarrow>
                   if pos_idx < length v
                   then Inr (phoneme_count,
                             AList.update p (v[pos_idx := v ! pos_idx + 1]) phoneme_count_by_pos)
                   else Inl IndexError)
         else Inr (phoneme_count, phoneme_count_by_pos))"

text \<open>\<^verbatim>\<open>for i, p in enumerate(phonemes)\<close>: the inner loop, stopping at the first exception.\<close>

fun count_variant ::
  "bool \<Rightarrow> nat \<Rightarrow> count_table \<times> pos_table \<Rightarrow> (nat \<times> phoneme) list \<Rightarrow>
     error + (count_table \<times> pos_table)" where
  "count_variant ignore_stress n_ph tabs [] = Inr tabs"
| "count_variant ignore_stress n_ph tabs (ip # ips) =
     (case count_phoneme ignore_stress n_ph tabs ip of
        Inl e \<Rightarrow> Inl e
      | Inr tabs' \<Rightarrow> count_variant ignore_stress n_ph tabs' ips)"

text \<open>\<^verbatim>\<open>for _, phonemes in self.phon_trans\<close>: the outer loop.\<close>

fun count_transcription ::
  "bool \<Rightarrow> count_table \<times> pos_table \<Rightarrow> (ustring \<times> phoneme list) list \<Rightarrow>
     error + (count_table \<times> pos_table)" where
  "count_transcription ignore_stress tabs [] = Inr tabs"
| "count_transcription ignore_stress tabs ((word, phonemes) # rest) =
     (case count_variant ignore_stress (length phonemes) tabs (enumerate 0 phonemes) of
        Inl e \<Rightarrow> Inl e
      | Inr tabs' \<Rightarrow> count_transcription ignore_stress tabs' rest)"

text \<open>
  \<^verbatim>\<open>dict(sorted(d.items()))\<close>: the keys of a \<^verbatim>\<open>dict\<close> are distinct, so sorting the items
  is sorting by key. Strings compare lexicographically by code point.
\<close>

definition get_phoneme_stats ::
  "bool \<Rightarrow> (ustring \<times> phoneme list) list \<Rightarrow> error + (count_table \<times> pos_table)" where
  "get_phoneme_stats ignore_stress phon_trans =
     (case count_transcription ignore_stress ([], []) phon_trans of
        Inl e \<Rightarrow> Inl e
      | Inr (phoneme_count, phoneme_count_by_pos) \<Rightarrow>
          Inr (sort_key fst phoneme_count, sort_key fst phoneme_count_by_pos))"

subsection \<open>\<^verbatim>\<open>Passage.__check_counts\<close>\<close>

text \<open>
  The list comprehension \<^verbatim>\<open>[phoneme_count[k] >= sum(phoneme_count_by_pos[k]) for k in
  phoneme_count]\<close> over the keys \<open>ks\<close>; a missing key raises \<^verbatim>\<open>KeyError\<close>.
\<close>

fun checks :: "count_table \<Rightarrow> pos_table \<Rightarrow> phoneme list \<Rightarrow> error + bool list" where
  "checks phoneme_count phoneme_count_by_pos [] = Inr []"
| "checks phoneme_count phoneme_count_by_pos (k # ks) =
     (case map_of phoneme_count k of
        None \<Rightarrow> Inl KeyError
      | Some c \<Rightarrow>
          (case map_of phoneme_count_by_pos k of
             None \<Rightarrow> Inl KeyError
           | Some v \<Rightarrow>
               (case checks phoneme_count phoneme_count_by_pos ks of
                  Inl e \<Rightarrow> Inl e
                | Inr bs \<Rightarrow> Inr ((sum_list v \<le> c) # bs))))"

definition check_counts :: "count_table \<Rightarrow> pos_table \<Rightarrow> error + unit" where
  "check_counts phoneme_count phoneme_count_by_pos =
     (case checks phoneme_count phoneme_count_by_pos (map fst phoneme_count) of
        Inl e \<Rightarrow> Inl e
      | Inr bs \<Rightarrow> if \<not> list_all (\<lambda>b. b) bs then Inl ValueError else Inr ())"

subsection \<open>\<^verbatim>\<open>Passage.__clean_text\<close>\<close>

text \<open>
  The tables of the Unicode database that \<^verbatim>\<open>str.lower\<close>, \<^verbatim>\<open>\w\<close> and \<^verbatim>\<open>\s\<close> read are
  not part of the repository; they are parameters. \<open>lower\<close> is \<^verbatim>\<open>str.lower\<close> on a whole
  string (it is context sensitive on the Greek capital sigma). \<open>is_space\<close> is the one
  table behind both \<^verbatim>\<open>\s\<close> and \<^verbatim>\<open>str.strip()\<close>.
\<close>

record unicode_tables =
  lower :: "ustring \<Rightarrow> ustring"
  is_word :: "codepoint \<Rightarrow> bool"
  is_space :: "codepoint \<Rightarrow> bool"

text \<open>\<^verbatim>\<open>s.replace(a, b)\<close> for one-character strings \<open>a\<close> and \<open>b\<close>.\<close>

definition replace_char :: "codepoint \<Rightarrow> codepoint \<Rightarrow> ustring \<Rightarrow> ustring" where
  "replace_char a b s = map (\<lambda>c. if c = a then b else c) s"

text \<open>\<^verbatim>\<open>re.sub(r"[^\w\s']", '', s)\<close>: only word characters, whitespace and U+0027 stay.\<close>

definition remove_punctuation :: "unicode_tables \<Rightarrow> ustring \<Rightarrow> ustring" where
  "remove_punctuation U s = filter (\<lambda>c. is_word U c \<or> is_space U c \<or> c = 0x27) s"

text \<open>\<^verbatim>\<open>re.sub(r'\s+', ' ', s)\<close>: every maximal run of whitespace becomes one U+0020.\<close>

function collapse_whitespace :: "unicode_tables \<Rightarrow> ustring \<Rightarrow> ustring" where
  "collapse_whitespace U [] = []"
| "collapse_whitespace U (c # cs) =
     (if is_space U c then 0x20 # collapse_whitespace U (dropWhile (is_space U) cs)
      else c # collapse_whitespace U cs)"
  by pat_completeness auto
termination
  by (relation "measure (\<lambda>(U, s). length s)")
     (auto simp: length_dropWhile_le less_Suc_eq_le)

text \<open>\<^verbatim>\<open>s.strip()\<close>.\<close>

definition strip :: "unicode_tables \<Rightarrow> ustring \<Rightarrow> ustring" where
  "strip U s = rev (dropWhile (is_space U) (rev (dropWhile (is_space U) s)))"

definition clean_text :: "unicode_tables \<Rightarrow> ustring \<Rightarrow> ustring" where
  "clean_text U t0 =
     (let t1 = replace_char 0x0A 0x20 (lower U t0);
          t2 = replace_char 0x2019 0x27 t1;
          t3 = remove_punctuation U t2
      in strip U (collapse_whitespace U t3))"

text \<open>
  What the proofs about \<open>clean_text\<close> use of the tables, each a fact of Python's:
  U+0020 is whitespace; every character of a lowercased string is its own lowercase, as
  are U+0020 and U+0027; and a string of such characters is its own lowercase.
\<close>

definition lower_fixed :: "unicode_tables \<Rightarrow> codepoint \<Rightarrow> bool" where
  "lower_fixed U c = (lower U [c] = [c])"

definition tables_ok :: "unicode_tables \<Rightarrow> bool" where
  "tables_ok U =
     (is_space U 0x20 \<and> lower_fixed U 0x20 \<and> lower_fixed U 0x27 \<and>
      (\<forall>s. list_all (lower_fixed U) (lower U s)) \<and>
      (\<forall>s. list_all (lower_fixed U) s \<longrightarrow> lower U s = s))"

text \<open>Python's tables on the code points below 128; the others are left as they are.\<close>

definition ascii_tables :: unicode_tables where
  "ascii_tables =
     \<lparr> lower = map (\<lambda>c. if 65 \<le> c \<and> c \<le> 90 then c + 32 else c),
       is_word = (\<lambda>c. (48 \<le> c \<and> c \<le> 57) \<or> (65 \<le> c \<and> c \<le> 90) \<or> c = 95 \<or>
                       (97 \<le> c \<and> c \<le> 122)),
       is_space = (\<lambda>c. (9 \<le> c \<and> c \<le> 13) \<or> (28 \<le> c \<and> c \<le> 32)) \<rparr>"

text \<open>
  The shape \<^verbatim>\<open>re.sub(r'\s+', ' ', s)\<close> leaves: every whitespace character is a U+0020
  with no whitespace character right after it.
\<close>

fun single_spaces :: "unicode_tables \<Rightarrow> ustring \<Rightarrow> bool" where
  "single_spaces U [] = True"
| "single_spaces U (c # cs) =
     ((is_space U c \<longrightarrow> c = 0x20 \<and> (cs = [] \<or> \<not> is_space U (hd cs))) \<and> single_spaces U cs)"

text \<open>A string literal of code points below 256 as Python text.\<close>

definition ustr :: "string \<Rightarrow> ustring" where
  "ustr s = map of_char s"

subsection \<open>\<^verbatim>\<open>phoneme_cache\<close> and \<^verbatim>\<open>Passage.__to_phonemes\<close>\<close>

text \<open>
  The state of the process: the module's \<^verbatim>\<open>phoneme_cache\<close>, and a log of the words
  looked up in the pronunciation dictionary (\<^verbatim>\<open>cmudict.dict()[word]\<close>), in order. The
  dictionary is a parameter \<open>D\<close>: a word's list of pronunciation variants, empty for a
  word it does not have.
\<close>

record process =
  phoneme_cache :: "ustring \<rightharpoonup> phoneme list"
  dict_queries :: "ustring list"

type_synonym dictionary = "ustring \<Rightarrow> phoneme list list"

text \<open>\<^verbatim>\<open>s.split(sep)\<close> for a one-character \<open>sep\<close>: the empty string gives \<^verbatim>\<open>['']\<close>.\<close>

fun str_split :: "codepoint \<Rightarrow> ustring \<Rightarrow> ustring list" where
  "str_split sep [] = [[]]"
| "str_split sep (c # cs) =
     (if c = sep then [] # str_split sep cs
      else (case str_split sep cs of
              w # ws \<Rightarrow> (c # w) # ws
            | [] \<Rightarrow> [[c]]))"

text \<open>
  The body of the loop over \<open>words\<close>. The state is the process, \<^verbatim>\<open>self.oovs\<close> and
  \<^verbatim>\<open>phon_transcript\<close>.
\<close>

definition to_phonemes_word ::
  "dictionary \<Rightarrow> process \<times> ustring list \<times> (ustring \<times> phoneme list) list \<Rightarrow> ustring \<Rightarrow>
     process \<times> ustring list \<times> (ustring \<times> phoneme list) list" where
  "to_phonemes_word D st word =
     (let (proc, oovs, phon_transcript) = st in
      case phoneme_cache proc word of
        Some phonemes \<Rightarrow> (proc, oovs, phon_transcript @ [(word, phonemes)])
      | None \<Rightarrow>
          (let proc = proc\<lparr>dict_queries := dict_queries proc @ [word]\<rparr> in
           case D word of
             v # _ \<Rightarrow>
               (proc\<lparr>phoneme_cache := (phoneme_cache proc)(word \<mapsto> v)\<rparr>,
                oovs, phon_transcript @ [(word, v)])
           | [] \<Rightarrow>
               (proc\<lparr>phoneme_cache := (phoneme_cache proc)(word \<mapsto> [])\<rparr>,
                oovs @ [word], phon_transcript @ [(word, [])])))"

text \<open>
  \<open>to_phonemes D t oovs proc\<close> is \<^verbatim>\<open>__to_phonemes\<close> on the cleaned text \<open>t\<close>, with
  \<^verbatim>\<open>self.oovs\<close> as \<open>oovs\<close> before the call: the process, \<^verbatim>\<open>self.oovs\<close> and
  \<^verbatim>\<open>self.phon_trans\<close> after it.
\<close>

definition to_phonemes ::
  "dictionary \<Rightarrow> ustring \<Rightarrow> ustring list \<Rightarrow> process \<Rightarrow>
     process \<times> ustring list \<times> (ustring \<times> phoneme list) list" where
  "to_phonemes D t oovs proc = foldl (to_phonemes_word D) (proc, oovs, []) (str_split 0x20 t)"

text \<open>
  Two notions for stating what the cache does. \<open>first_variant\<close> is what a first lookup
  stores: the first variant the dictionary returns, or the empty list. \<open>lookups\<close> is the
  process after the words \<open>ws\<close> have gone through the loop body, in whichever Passages:
  what the body does to the process does not depend on \<^verbatim>\<open>self.oovs\<close> or on
  \<^verbatim>\<open>phon_transcript\<close>.
\<close>

definition first_variant :: "dictionary \<Rightarrow> ustring \<Rightarrow> phoneme list" where
  "first_variant D word = (case D word of [] \<Rightarrow> [] | v # _ \<Rightarrow> v)"

definition lookups :: "dictionary \<Rightarrow> process \<Rightarrow> ustring list \<Rightarrow> process" where
  "lookups D proc ws = fst (foldl (to_phonemes_word D) (proc, [], []) ws)"

subsection \<open>\<^verbatim>\<open>Passage\<close>\<close>

record passage =
  name :: "ustring option"
  oovs :: "ustring list"
  ignore_stress :: bool
  passage_text :: ustring
  phon_trans :: "(ustring \<times> phoneme list) list"
  phoneme_count :: count_table
  phoneme_count_by_pos :: pos_table
  n_phonemes :: int
  n_unique_phonemes :: nat
  n_words :: nat

text \<open>\<^verbatim>\<open>os.path.basename\<close>: what follows the last \<^verbatim>\<open>/\<close>.\<close>

definition basename :: "ustring \<Rightarrow> ustring" where
  "basename path = rev (takeWhile (\<lambda>c. c \<noteq> 0x2F) (rev path))"

text \<open>
  \<^verbatim>\<open>__read_input_text\<close>. The regular files of the file system are a map \<open>files\<close> from a
  path to the text read from it (a file is taken to be readable as UTF-8);
  \<^verbatim>\<open>os.path.isfile\<close> is membership in its domain. The result is \<^verbatim>\<open>self.name\<close> and
  \<^verbatim>\<open>self.text\<close>.
\<close>

definition read_input_text ::
  "(ustring \<rightharpoonup> ustring) \<Rightarrow> ustring option \<Rightarrow> ustring \<Rightarrow> ustring option \<times> ustring" where
  "read_input_text files nm input_data =
     (case files input_data of
        Some content \<Rightarrow> ((if nm = None then Some (basename input_data) else nm), content)
      | None \<Rightarrow> (nm, input_data))"

text \<open>\<^verbatim>\<open>Passage.__init__(text, name, ignore_stress)\<close>, in the process \<open>proc\<close>.\<close>

definition passage_init ::
  "unicode_tables \<Rightarrow> dictionary \<Rightarrow> (ustring \<rightharpoonup> ustring) \<Rightarrow>
     ustring \<Rightarrow> ustring option \<Rightarrow> bool \<Rightarrow> process \<Rightarrow> error + (passage \<times> process)" where
  "passage_init U D files input_data nm ig proc =
     (let (nm', t) = read_input_text files nm input_data;
          t' = clean_text U t;
          (proc', oovs', pt) = to_phonemes D t' [] proc
      in case get_phoneme_stats ig pt of
           Inl e \<Rightarrow> Inl e
         | Inr (pc, pp) \<Rightarrow>
             (case check_counts pc pp of
                Inl e \<Rightarrow> Inl e
              | Inr _ \<Rightarrow>
                  Inr (\<lparr> name = nm', oovs = oovs', ignore_stress = ig, passage_text = t',
                         phon_trans = pt, phoneme_count = pc, phoneme_count_by_pos = pp,
                         n_phonemes = sum_list (map snd pc),
                         n_unique_phonemes = length (map fst pc),
                         n_words = length pt \<rparr>, proc')))"

subsection \<open>\<^verbatim>\<open>Corpus.export_oovs\<close>\<close>

text \<open>Of a \<^verbatim>\<open>Corpus\<close>, the fields that \<^verbatim>\<open>export_oovs\<close> reads.\<close>

record corpus =
  directory :: ustring
  corpus_oovs :: "ustring list"

text \<open>
  What \<^verbatim>\<open>export_oovs\<close> acts on: the file system, a map from a path to the content of the
  file there, and the lines printed so far.
\<close>

record effects =
  disk :: "ustring \<rightharpoonup> ustring"
  printed :: "ustring list"

text \<open>\<^verbatim>\<open>sep.join(ws)\<close>.\<close>

fun str_join :: "ustring \<Rightarrow> ustring list \<Rightarrow> ustring" where
  "str_join sep [] = []"
| "str_join sep [w] = w"
| "str_join sep (w # ws) = w @ sep @ str_join sep ws"

text \<open>
  \<^verbatim>\<open>open(outpath, 'w')\<close> followed by \<^verbatim>\<open>f.write(s)\<close> makes \<open>s\<close> the whole content of the
  file at \<open>outpath\<close>; the file is taken to be writable.
\<close>

definition export_oovs :: "corpus \<Rightarrow> ustring option \<Rightarrow> effects \<Rightarrow> effects" where
  "export_oovs c outpath out =
     (if 0 < length (corpus_oovs c) then
        (let outpath' = (case outpath of
                           None \<Rightarrow> directory c @ ustr ''/oovs.txt''
                         | Some path \<Rightarrow> path)
         in out\<lparr>disk := (disk out)(outpath' \<mapsto> str_join [0x0A] (corpus_oovs c))\<rparr>)
      else out\<lparr>printed := printed out @ [ustr ''No OOV words in the corpus.'']\<rparr>)"

subsection \<open>The counting rule of the specification\<close>

text \<open>
  These definitions follow the specification (section 4.4), not the code: the proofs
  compare them with \<open>get_phoneme_stats\<close>. An occurrence is \<open>(n, i, p)\<close>: the symbol \<open>p\<close>,
  in the form that is counted, stands at index \<open>i\<close> of a variant of \<open>n\<close> symbols.
\<close>

definition occurrences ::
  "bool \<Rightarrow> (ustring \<times> phoneme list) list \<Rightarrow> (nat \<times> nat \<times> phoneme) list" where
  "occurrences ig pt =
     concat (map (\<lambda>(word, phonemes).
        map (\<lambda>(i, p). (length phonemes, i, stress_form ig p)) (enumerate 0 phonemes)) pt)"

text \<open>
  The bucket of index \<open>i\<close> in a variant of \<open>n\<close> symbols: none when \<open>n < 2\<close>; otherwise
  initial (0) for index 0, final (2) for index \<open>n - 1\<close>, medial (1) for any other.
\<close>

definition spec_position :: "nat \<Rightarrow> nat \<Rightarrow> nat option" where
  "spec_position n i =
     (if n < 2 then None
      else if i = 0 then Some 0
      else if i = n - 1 then Some 2
      else Some 1)"

definition spec_total :: "(nat \<times> nat \<times> phoneme) list \<Rightarrow> phoneme \<Rightarrow> int" where
  "spec_total occs k = int (length (filter (\<lambda>(n, i, p). p = k) occs))"

definition spec_bucket :: "(nat \<times> nat \<times> phoneme) list \<Rightarrow> phoneme \<Rightarrow> nat \<Rightarrow> int" where
  "spec_bucket occs k b =
     int (length (filter (\<lambda>(n, i, p). p = k \<and> spec_position n i = Some b) occs))"

definition spec_buckets :: "(nat \<times> nat \<times> phoneme) list \<Rightarrow> phoneme \<Rightarrow> int list" where
  "spec_buckets occs k = [spec_bucket occs k 0, spec_bucket occs k 1, spec_bucket occs k 2]"

text \<open>
  The two tables hold exactly the counts of the occurrences \<open>occs\<close>: a key for every
  symbol that occurs and for no other.
\<close>

definition tables_of :: "(nat \<times> nat \<times> phoneme) list \<Rightarrow> count_table \<times> pos_table \<Rightarrow> bool" where
  "tables_of occs tabs =
     (map_of (fst tabs) =
        (\<lambda>k. if spec_total occs k = 0 then None else Some (spec_total occs k)) \<and>
      map_of (snd tabs) =
        (\<lambda>k. if spec_total occs k = 0 then None else Some (spec_buckets occs k)) \<and>
      distinct (map fst (fst tabs)) \<and> distinct (map fst (snd tabs)))"

subsection \<open>A small dictionary and a fresh process\<close>

text \<open>
  Concrete inputs for the examples: a dictionary of four words, with the variants the
  CMU dictionary lists first for them, and the process right after the module is loaded.
\<close>

definition demo_dict :: dictionary where
  "demo_dict w =
     (if w = ustr ''the'' then [[''DH'', ''AH0''], [''DH'', ''AH1'']]
      else if w = ustr ''cat'' then [[''K'', ''AE1'', ''T'']]
      else if w = ustr ''sat'' then [[''S'', ''AE1'', ''T'']]
      else if w = ustr ''a'' then [[''AH0''], [''EY1'']]
      else [])"

definition fresh_process :: process where
  "fresh_process = \<lparr> phoneme_cache = Map.empty, dict_queries = [] \<rparr>"

text \<open>A corpus with two out-of-vocabulary words, and the effects before any call.\<close>

definition demo_corpus :: corpus where
  "demo_corpus = \<lparr> directory = ustr ''texts'', corpus_oovs = [ustr ''zzz'', ustr ''qqq''] \<rparr>"

definition no_effects :: effects where
  "no_effects = \<lparr> disk = Map.empty, printed = [] \<rparr>"

section \<open>The counter computes the counts of the specification\<close>

lemma spec_total_snoc:
  "spec_total (occs @ [(n, i, p)]) k = spec_total occs k + (if p = k then 1 else 0)"
  by (simp add: spec_total_def)

lemma spec_bucket_snoc:
  "spec_bucket (occs @ [(n, i, p)]) k b =
     spec_bucket occs k b + (if p = k \<and> spec_position n i = Some b then 1 else 0)"
  by (simp add: spec_bucket_def)

lemma spec_total_nonneg: "0 \<le> spec_total occs k"
  by (simp add: spec_total_def)

lemma spec_bucket_zero: "spec_total occs k = 0 \<Longrightarrow> spec_bucket occs k b = 0"
  by (induction occs) (auto simp: spec_total_def spec_bucket_def split: if_splits)

lemma tables_of_Nil: "tables_of [] ([], [])"
  by (simp add: tables_of_def spec_total_def fun_eq_iff)

lemma count_phoneme_tables:
  assumes "tables_of occs tabs"
  shows "\<exists>tabs'. count_phoneme ig n tabs (i, p0) = Inr tabs' \<and>
           tables_of (occs @ [(n, i, stress_form ig p0)]) tabs'"
proof -
  obtain pc pp where tabs: "tabs = (pc, pp)" by (cases tabs)
  define p where "p = stress_form ig p0"
  have pc: "map_of pc = (\<lambda>k. if spec_total occs k = 0 then None else Some (spec_total occs k))"
    and pp: "map_of pp = (\<lambda>k. if spec_total occs k = 0 then None else Some (spec_buckets occs k))"
    and d1: "distinct (map fst pc)" and d2: "distinct (map fst pp)"
    using assms by (simp_all add: tables_of_def tabs)
  have nn: "\<And>k. 0 \<le> spec_total occs k" by (rule spec_total_nonneg)
  show ?thesis
    using nn[of p] d1 d2
    apply (simp add: count_phoneme_def tabs Let_def p_def[symmetric] pc pp tables_of_def
        update_conv' distinct_update fun_eq_iff spec_total_snoc spec_bucket_snoc
        spec_buckets_def spec_position_def)
    apply (auto simp: update_conv' distinct_update fun_eq_iff spec_total_snoc
        spec_bucket_snoc spec_buckets_def spec_position_def pc pp spec_bucket_zero)
    done
qed

lemma count_variant_tables:
  "tables_of occs tabs \<Longrightarrow>
     \<exists>tabs'. count_variant ig n tabs ips = Inr tabs' \<and>
       tables_of (occs @ map (\<lambda>(i, p). (n, i, stress_form ig p)) ips) tabs'"
proof (induction ips arbitrary: occs tabs)
  case Nil
  then show ?case by simp
next
  case (Cons ip ips)
  obtain i p0 where ip: "ip = (i, p0)" by (cases ip)
  from count_phoneme_tables[OF Cons.prems, of ig n i p0]
  obtain t1 where t1: "count_phoneme ig n tabs (i, p0) = Inr t1"
    and inv1: "tables_of (occs @ [(n, i, stress_form ig p0)]) t1" by blast
  from Cons.IH[OF inv1] t1 show ?case by (simp add: ip)
qed

lemma count_transcription_tables:
  "tables_of occs tabs \<Longrightarrow>
     \<exists>tabs'. count_transcription ig tabs pt = Inr tabs' \<and>
       tables_of (occs @ occurrences ig pt) tabs'"
proof (induction pt arbitrary: occs tabs)
  case Nil
  then show ?case by (simp add: occurrences_def)
next
  case (Cons wp pt)
  obtain word phonemes where wp: "wp = (word, phonemes)" by (cases wp)
  from count_variant_tables[OF Cons.prems, of ig "length phonemes" "enumerate 0 phonemes"]
  obtain t1 where t1: "count_variant ig (length phonemes) tabs (enumerate 0 phonemes) = Inr t1"
    and inv1: "tables_of (occs @ map (\<lambda>(i, p). (length phonemes, i, stress_form ig p))
                 (enumerate 0 phonemes)) t1" by blast
  from Cons.IH[OF inv1] t1 show ?case by (simp add: wp occurrences_def)
qed

lemma sort_key_fst_keeps:
  assumes "distinct (map fst xs)"
  shows "map_of (sort_key fst xs) = map_of xs" and "distinct (map fst (sort_key fst xs))"
proof -
  have "mset (map fst (sort_key fst xs)) = mset (map fst xs)" by simp
  then show d: "distinct (map fst (sort_key fst xs))"
    using assms mset_eq_imp_distinct_iff by blast
  show "map_of (sort_key fst xs) = map_of xs"
    using d assms by (simp add: map_of_inject_set)
qed

lemma get_phoneme_stats_tables:
  "\<exists>pc pp. get_phoneme_stats ig pt = Inr (pc, pp) \<and> tables_of (occurrences ig pt) (pc, pp)"
proof -
  from count_transcription_tables[OF tables_of_Nil, of ig pt]
  obtain pc pp where r: "count_transcription ig ([], []) pt = Inr (pc, pp)"
    and inv: "tables_of (occurrences ig pt) (pc, pp)" by auto
  have "tables_of (occurrences ig pt) (sort_key fst pc, sort_key fst pp)"
    using inv by (simp add: tables_of_def sort_key_fst_keeps)
  with r show ?thesis by (simp add: get_phoneme_stats_def)
qed

lemma spec_buckets_sum_le: "sum_list (spec_buckets occs k) \<le> spec_total occs k"
  by (induction occs)
     (auto simp: spec_buckets_def spec_bucket_def spec_total_def spec_position_def
           split: if_splits)

lemma spec_total_zero_iff: "spec_total occs k = 0 \<longleftrightarrow> k \<notin> (\<lambda>(n, i, p). p) ` set occs"
  by (induction occs) (auto simp: spec_total_def split: if_splits)

lemma tables_of_keys:
  assumes "tables_of occs (pc, pp)"
  shows "set (map fst pc) = set (map fst pp)"
proof -
  have "dom (map_of pc) = dom (map_of pp)"
    using assms by (auto simp: tables_of_def dom_def split: if_splits)
  then show ?thesis by (simp add: dom_map_of_conv_image_fst)
qed

lemma tables_of_lookup:
  assumes "tables_of occs (pc, pp)" and "map_of pc k = Some c"
  shows "map_of pp k = Some (spec_buckets occs k) \<and> sum_list (spec_buckets occs k) \<le> c"
  using assms spec_buckets_sum_le[of occs k]
  by (auto simp: tables_of_def split: if_splits)

lemma checks_error: "checks pc pp ks = Inl e \<Longrightarrow> e = KeyError"
  by (induction ks arbitrary: e) (auto split: option.splits sum.splits)

lemma checks_KeyError_iff:
  "(\<exists>e. checks pc pp ks = Inl e) \<longleftrightarrow> (\<exists>k \<in> set ks. map_of pc k = None \<or> map_of pp k = None)"
  by (induction ks) (auto split: option.splits sum.splits)

lemma checks_Inr:
  "checks pc pp ks = Inr bs \<Longrightarrow>
     bs = map (\<lambda>k. sum_list (the (map_of pp k)) \<le> the (map_of pc k)) ks"
  by (induction ks arbitrary: bs) (auto split: option.splits sum.splits)

lemma map_of_keys_Some: "k \<in> set (map fst pc) \<Longrightarrow> \<exists>c. map_of pc k = Some c"
  by (metis domD dom_map_of_conv_image_fst list.set_map)

lemma check_counts_ValueError_iff:
  "check_counts pc pp = Inl ValueError \<longleftrightarrow>
     (\<forall>k \<in> set (map fst pc). map_of pp k \<noteq> None) \<and>
     (\<exists>k c v. map_of pc k = Some c \<and> map_of pp k = Some v \<and> c < sum_list v)"
proof (cases "checks pc pp (map fst pc)")
  case (Inl e)
  then have e: "e = KeyError" by (rule checks_error)
  from Inl checks_KeyError_iff[of pc pp "map fst pc"]
  obtain k where "k \<in> set (map fst pc)" "map_of pc k = None \<or> map_of pp k = None" by blast
  with map_of_keys_Some[of k pc] have "\<exists>k \<in> set (map fst pc). map_of pp k = None" by auto
  with Inl e show ?thesis by (auto simp: check_counts_def)
next
  case (Inr bs)
  from checks_Inr[OF Inr]
  have bs: "bs = map (\<lambda>k. sum_list (the (map_of pp k)) \<le> the (map_of pc k)) (map fst pc)" .
  from Inr checks_KeyError_iff[of pc pp "map fst pc"]
  have all: "\<forall>k \<in> set (map fst pc). map_of pc k \<noteq> None \<and> map_of pp k \<noteq> None" by auto
  have "check_counts pc pp = Inl ValueError \<longleftrightarrow> \<not> list_all (\<lambda>b. b) bs"
    using Inr by (simp add: check_counts_def)
  also have "\<dots> \<longleftrightarrow> (\<exists>k \<in> set (map fst pc). the (map_of pc k) < sum_list (the (map_of pp k)))"
    by (auto simp: bs list_all_iff not_le)
  also have "\<dots> \<longleftrightarrow> (\<exists>k c v. map_of pc k = Some c \<and> map_of pp k = Some v \<and> c < sum_list v)"
  proof
    assume "\<exists>k \<in> set (map fst pc). the (map_of pc k) < sum_list (the (map_of pp k))"
    then obtain k where k: "k \<in> set (map fst pc)"
      and lt: "the (map_of pc k) < sum_list (the (map_of pp k))" by blast
    from all k obtain c v where "map_of pc k = Some c" "map_of pp k = Some v" by auto
    with lt show "\<exists>k c v. map_of pc k = Some c \<and> map_of pp k = Some v \<and> c < sum_list v"
      by auto
  next
    assume "\<exists>k c v. map_of pc k = Some c \<and> map_of pp k = Some v \<and> c < sum_list v"
    then obtain k c v where a: "map_of pc k = Some c" "map_of pp k = Some v" "c < sum_list v"
      by blast
    from a(1) have "k \<in> set (map fst pc)"
      by (metis domI dom_map_of_conv_image_fst list.set_map)
    with a show "\<exists>k \<in> set (map fst pc). the (map_of pc k) < sum_list (the (map_of pp k))"
      by (intro bexI[where x = k]) simp_all
  qed
  finally show ?thesis using all by simp
qed

lemma check_counts_tables:
  assumes "tables_of occs (pc, pp)"
  shows "check_counts pc pp = Inr ()"
proof -
  have keys: "\<forall>k \<in> set (map fst pc). map_of pc k \<noteq> None \<and> map_of pp k \<noteq> None"
    using map_of_keys_Some[of _ pc] tables_of_lookup[OF assms] by fastforce
  then obtain bs where bs: "checks pc pp (map fst pc) = Inr bs"
    using checks_KeyError_iff[of pc pp "map fst pc"] by (cases "checks pc pp (map fst pc)") auto
  have "list_all (\<lambda>b. b) bs"
    unfolding checks_Inr[OF bs] list_all_iff
    using map_of_keys_Some[of _ pc] tables_of_lookup[OF assms] by fastforce
  with bs show ?thesis by (simp add: check_counts_def)
qed

lemma passage_init_tables:
  "\<exists>p proc'. passage_init U D files input_data nm ig proc = Inr (p, proc') \<and>
     tables_of (occurrences ig (phon_trans p)) (phoneme_count p, phoneme_count_by_pos p)"
proof -
  obtain nm' t where r: "read_input_text files nm input_data = (nm', t)" by fastforce
  obtain proc' oovs' pt where tp: "to_phonemes D (clean_text U t) [] proc = (proc', oovs', pt)"
    by (cases "to_phonemes D (clean_text U t) [] proc") auto
  from get_phoneme_stats_tables[of ig pt]
  obtain pc pp where st: "get_phoneme_stats ig pt = Inr (pc, pp)"
    and inv: "tables_of (occurrences ig pt) (pc, pp)" by blast
  from check_counts_tables[OF inv] have "check_counts pc pp = Inr ()" .
  with r tp st inv show ?thesis by (simp add: passage_init_def)
qed


section \<open>The invariant of the two tables\<close>

text \<open>The buckets of the variants of at most three symbols.\<close>

lemma spec_position_examples:
  "spec_position 0 i = None" "spec_position 1 0 = None"
  "spec_position 2 0 = Some 0" "spec_position 2 1 = Some 2"
  "spec_position 3 0 = Some 0" "spec_position 3 1 = Some 1" "spec_position 3 2 = Some 2"
  by (simp_all add: spec_position_def)

text \<open>
  The scenario of the specification: \<^verbatim>\<open>Passage('The cat sat.')\<close> with stress ignored.
\<close>

lemma scenario_the_cat_sat:
  "map_sum id (\<lambda>(p, proc). (passage_text p, phoneme_count p, phoneme_count_by_pos p, n_words p))
     (passage_init ascii_tables demo_dict Map.empty (ustr ''The cat sat.'') None True fresh_process)
   = Inr (ustr ''the cat sat'',
          [(''AE'', 2), (''AH'', 1), (''DH'', 1), (''K'', 1), (''S'', 1), (''T'', 2)],
          [(''AE'', [0, 2, 0]), (''AH'', [0, 0, 1]), (''DH'', [1, 0, 0]), (''K'', [1, 0, 0]),
           (''S'', [1, 0, 0]), (''T'', [0, 0, 2])],
          3)"
  by code_simp

lemma tables_of_length:
  assumes "tables_of occs (pc, pp)" and "map_of pp k = Some v"
  shows "length v = 3"
  using assms by (auto simp: tables_of_def spec_buckets_def split: if_splits)

text \<open>
  C1. In every Passage that completes construction, every symbol \<open>k\<close> of
  \<^verbatim>\<open>phoneme_count\<close> has an entry of three counts in \<^verbatim>\<open>phoneme_count_by_pos\<close>, and its total
  count is at least their sum
\<close>

theorem passage_count_ge_positional:
  assumes "passage_init U D files input_data nm ig proc = Inr (p, proc')"
    and "map_of (phoneme_count p) k = Some c"
  shows "\<exists>v. map_of (phoneme_count_by_pos p) k = Some v \<and> length v = 3 \<and> sum_list v \<le> c"
proof -
  from passage_init_tables[of U D files input_data nm ig proc] assms(1)
  have inv: "tables_of (occurrences ig (phon_trans p)) (phoneme_count p, phoneme_count_by_pos p)"
    by auto
  from tables_of_lookup[OF inv assms(2)] tables_of_length[OF inv]
  show ?thesis by blast
qed

theorem passage_count_ge_positional_witness:
  "\<exists>p proc'.
     passage_init ascii_tables demo_dict Map.empty (ustr ''A cat'') None True fresh_process
       = Inr (p, proc') \<and>
     map_of (phoneme_count p) ''AH'' = Some 1 \<and>
     (\<exists>v. map_of (phoneme_count_by_pos p) ''AH'' = Some v \<and> length v = 3 \<and> sum_list v \<le> 1)"
proof -
  obtain p proc' where r:
    "passage_init ascii_tables demo_dict Map.empty (ustr ''A cat'') None True fresh_process
       = Inr (p, proc')"
    using passage_init_tables by blast
  have "map_sum id (\<lambda>(p, proc). phoneme_count p)
          (passage_init ascii_tables demo_dict Map.empty (ustr ''A cat'') None True fresh_process)
        = Inr [(''AE'', 1), (''AH'', 1), (''K'', 1), (''T'', 1)]"
    by code_simp
  with r have "phoneme_count p = [(''AE'', 1), (''AH'', 1), (''K'', 1), (''T'', 1)]" by simp
  then have k: "map_of (phoneme_count p) ''AH'' = Some 1" by simp
  from passage_count_ge_positional[OF r k] r k show ?thesis by blast
qed

text \<open>
  C2. For every transcription the counter returns the two tables, and they hold the
  counts of the specification: the total of a symbol is the number of its occurrences,
  whatever the length of the variant; its three positional counts are the numbers of its
  occurrences at index 0, at an index that is neither 0 nor \<open>n - 1\<close>, and at index
  \<open>n - 1\<close>, all in variants of \<open>n \<ge> 2\<close> symbols only (\<open>spec_position\<close> gives no bucket
  when \<open>n < 2\<close>)
\<close>

theorem positional_rule:
  "\<exists>pc pp. get_phoneme_stats ig pt = Inr (pc, pp) \<and>
     (\<forall>k. map_of pc k =
            (if spec_total (occurrences ig pt) k = 0 then None
             else Some (spec_total (occurrences ig pt) k)) \<and>
          map_of pp k =
            (if spec_total (occurrences ig pt) k = 0 then None
             else Some [spec_bucket (occurrences ig pt) k 0,
                        spec_bucket (occurrences ig pt) k 1,
                        spec_bucket (occurrences ig pt) k 2]))"
proof -
  from get_phoneme_stats_tables[of ig pt]
  obtain pc pp where r: "get_phoneme_stats ig pt = Inr (pc, pp)"
    and inv: "tables_of (occurrences ig pt) (pc, pp)" by blast
  from inv have "\<forall>k. map_of pc k =
            (if spec_total (occurrences ig pt) k = 0 then None
             else Some (spec_total (occurrences ig pt) k)) \<and>
          map_of pp k =
            (if spec_total (occurrences ig pt) k = 0 then None
             else Some [spec_bucket (occurrences ig pt) k 0,
                        spec_bucket (occurrences ig pt) k 1,
                        spec_bucket (occurrences ig pt) k 2])"
    by (simp add: tables_of_def spec_buckets_def)
  with r show ?thesis by blast
qed

text \<open>
  C7. \<^verbatim>\<open>__check_counts\<close> raises \<^verbatim>\<open>ValueError\<close> exactly when every key of
  \<^verbatim>\<open>phoneme_count\<close> has a positional entry (a missing one raises \<^verbatim>\<open>KeyError\<close> first) and
  the positional counts of some symbol sum to more than its total; on the tables that
  the counter returns for any transcription it raises nothing; and the construction of a
  Passage always completes
\<close>

theorem validate_never_fails:
  "(check_counts pc pp = Inl ValueError \<longleftrightarrow>
      (\<forall>k \<in> set (map fst pc). map_of pp k \<noteq> None) \<and>
      (\<exists>k c v. map_of pc k = Some c \<and> map_of pp k = Some v \<and> c < sum_list v)) \<and>
   (\<exists>pc' pp'. get_phoneme_stats ig pt = Inr (pc', pp') \<and> check_counts pc' pp' = Inr ()) \<and>
   (\<exists>p proc'. passage_init U D files input_data nm ig proc = Inr (p, proc'))"
proof (intro conjI)
  show "check_counts pc pp = Inl ValueError \<longleftrightarrow>
      (\<forall>k \<in> set (map fst pc). map_of pp k \<noteq> None) \<and>
      (\<exists>k c v. map_of pc k = Some c \<and> map_of pp k = Some v \<and> c < sum_list v)"
    by (rule check_counts_ValueError_iff)
  show "\<exists>pc' pp'. get_phoneme_stats ig pt = Inr (pc', pp') \<and> check_counts pc' pp' = Inr ()"
    using get_phoneme_stats_tables[of ig pt] check_counts_tables by blast
  show "\<exists>p proc'. passage_init U D files input_data nm ig proc = Inr (p, proc')"
    using passage_init_tables[of U D files input_data nm ig proc] by blast
qed

theorem validate_never_fails_witness:
  "check_counts [(''K'', 1)] [(''K'', [1, 1, 0])] = Inl ValueError \<and>
   (\<exists>pc' pp'. get_phoneme_stats True [(ustr ''cat'', [''K'', ''AE1'', ''T''])] = Inr (pc', pp') \<and>
      check_counts pc' pp' = Inr ()) \<and>
   (\<exists>p proc'. passage_init ascii_tables demo_dict Map.empty (ustr ''A cat'') None True
      fresh_process = Inr (p, proc'))"
  using validate_never_fails[of "[(''K'', 1)]" "[(''K'', [1, 1, 0])]" True
      "[(ustr ''cat'', [''K'', ''AE1'', ''T''])]" ascii_tables demo_dict Map.empty
      "ustr ''A cat''" None fresh_process]
  by simp

text \<open>
  C9. In every Passage that completes construction the two tables have the same
  keys, every key of \<^verbatim>\<open>phoneme_count\<close> has a positional entry of three counts, and the
  list comprehension of \<^verbatim>\<open>__check_counts\<close> raises no \<^verbatim>\<open>KeyError\<close>
\<close>

theorem passage_tables_same_keys:
  assumes "passage_init U D files input_data nm ig proc = Inr (p, proc')"
  shows "set (map fst (phoneme_count p)) = set (map fst (phoneme_count_by_pos p)) \<and>
         (\<forall>k \<in> set (map fst (phoneme_count p)).
            \<exists>v. map_of (phoneme_count_by_pos p) k = Some v \<and> length v = 3) \<and>
         (\<exists>bs. checks (phoneme_count p) (phoneme_count_by_pos p) (map fst (phoneme_count p))
                 = Inr bs)"
proof -
  from passage_init_tables[of U D files input_data nm ig proc] assms
  have inv: "tables_of (occurrences ig (phon_trans p)) (phoneme_count p, phoneme_count_by_pos p)"
    by auto
  have a: "set (map fst (phoneme_count p)) = set (map fst (phoneme_count_by_pos p))"
    by (rule tables_of_keys[OF inv])
  have b: "\<forall>k \<in> set (map fst (phoneme_count p)).
            \<exists>v. map_of (phoneme_count_by_pos p) k = Some v \<and> length v = 3"
    using map_of_keys_Some[of _ "phoneme_count p"] tables_of_lookup[OF inv]
      tables_of_length[OF inv] by metis
  from check_counts_tables[OF inv]
  have c: "\<exists>bs. checks (phoneme_count p) (phoneme_count_by_pos p) (map fst (phoneme_count p))
                 = Inr bs"
    by (auto simp: check_counts_def split: sum.splits if_splits)
  from a b c show ?thesis by blast
qed

theorem passage_tables_same_keys_witness:
  "\<exists>p proc'.
     passage_init ascii_tables demo_dict Map.empty (ustr ''A cat'') None True fresh_process
       = Inr (p, proc') \<and>
     set (map fst (phoneme_count p)) = set (map fst (phoneme_count_by_pos p)) \<and>
     list_all (\<lambda>k. \<exists>v. map_of (phoneme_count_by_pos p) k = Some v \<and> length v = 3)
       (map fst (phoneme_count p)) \<and>
     (\<exists>bs. checks (phoneme_count p) (phoneme_count_by_pos p) (map fst (phoneme_count p))
             = Inr bs)"
proof -
  obtain p proc' where r:
    "passage_init ascii_tables demo_dict Map.empty (ustr ''A cat'') None True fresh_process
       = Inr (p, proc')"
    using passage_init_tables by blast
  from passage_tables_same_keys[OF r] r show ?thesis
    unfolding list_all_iff by blast
qed


section \<open>The dictionary lookup cache\<close>

lemma to_phonemes_word_cached:
  "phoneme_cache proc word = Some v \<Longrightarrow>
     to_phonemes_word D (proc, os, tr) word = (proc, os, tr @ [(word, v)])"
  by (simp add: to_phonemes_word_def)

lemma to_phonemes_word_first:
  "phoneme_cache proc word = None \<Longrightarrow>
     to_phonemes_word D (proc, os, tr) word =
       (proc\<lparr>dict_queries := dict_queries proc @ [word],
              phoneme_cache := (phoneme_cache proc)(word \<mapsto> first_variant D word)\<rparr>,
        (if D word = [] then os @ [word] else os),
        tr @ [(word, first_variant D word)])"
  by (simp add: to_phonemes_word_def first_variant_def Let_def split: list.splits)

lemma to_phonemes_word_process:
  "fst (to_phonemes_word D (proc, os, tr) w) = fst (to_phonemes_word D (proc, os', tr') w)"
  by (simp add: to_phonemes_word_def Let_def split: option.splits list.splits)

lemma foldl_to_phonemes_word_process:
  "fst (foldl (to_phonemes_word D) (proc, os, tr) ws) =
   fst (foldl (to_phonemes_word D) (proc, os', tr') ws)"
proof (induction ws arbitrary: proc os tr os' tr')
  case Nil
  then show ?case by simp
next
  case (Cons w ws)
  obtain p1 o1 t1 where a: "to_phonemes_word D (proc, os, tr) w = (p1, o1, t1)"
    by (cases "to_phonemes_word D (proc, os, tr) w") auto
  obtain p2 o2 t2 where b: "to_phonemes_word D (proc, os', tr') w = (p2, o2, t2)"
    by (cases "to_phonemes_word D (proc, os', tr') w") auto
  from a b to_phonemes_word_process[of D proc os tr w os' tr'] have "p1 = p2" by simp
  with a b Cons.IH[of p1 o1 t1 o2 t2] show ?case by simp
qed

lemma to_phonemes_lookups:
  "fst (to_phonemes D t os proc) = lookups D proc (str_split 0x20 t)"
  unfolding to_phonemes_def lookups_def by (rule foldl_to_phonemes_word_process)

lemma lookups_Nil: "lookups D proc [] = proc"
  by (simp add: lookups_def)

lemma lookups_Cons:
  "lookups D proc (w # ws) = lookups D (fst (to_phonemes_word D (proc, [], []) w)) ws"
proof -
  obtain p1 o1 t1 where a: "to_phonemes_word D (proc, [], []) w = (p1, o1, t1)"
    by (cases "to_phonemes_word D (proc, [], []) w") auto
  show ?thesis
    using foldl_to_phonemes_word_process[of D p1 o1 t1 ws "[]" "[]"]
    by (simp add: lookups_def a)
qed

lemma lookup_keeps_cached:
  assumes "phoneme_cache proc word = Some v"
  shows "phoneme_cache (fst (to_phonemes_word D (proc, os, tr) w)) word = Some v \<and>
         count_list (dict_queries (fst (to_phonemes_word D (proc, os, tr) w))) word =
         count_list (dict_queries proc) word"
  using assms by (auto simp: to_phonemes_word_def Let_def split: option.splits list.splits)

lemma lookups_keep_cached:
  "phoneme_cache proc word = Some v \<Longrightarrow>
     phoneme_cache (lookups D proc ws) word = Some v \<and>
     count_list (dict_queries (lookups D proc ws)) word = count_list (dict_queries proc) word"
proof (induction ws arbitrary: proc)
  case Nil
  then show ?case by (simp add: lookups_Nil)
next
  case (Cons w ws)
  from lookup_keeps_cached[OF Cons.prems, of D "[]" "[]" w] Cons.IH
  show ?case by (simp add: lookups_Cons)
qed

text \<open>
  C5. The first lookup of a word (the cache does not hold it) asks the dictionary once,
  stores the first variant returned, or the empty list when there is none, and uses it
  for the transcript. After any further lookups \<open>ws\<close>, in any Passages, the lookup of
  the same word returns the stored variant and leaves the process as it is: no further
  query, and the number of queries for the word has not changed in between. The process
  after a Passage's \<^verbatim>\<open>__to_phonemes\<close> is the process after the lookups of its tokens.
\<close>

theorem lookup_queries_once:
  assumes "phoneme_cache proc word = None"
    and "to_phonemes_word D (proc, os, tr) word = (proc1, os1, tr1)"
  shows "dict_queries proc1 = dict_queries proc @ [word] \<and>
         phoneme_cache proc1 word = Some (first_variant D word) \<and>
         tr1 = tr @ [(word, first_variant D word)] \<and>
         to_phonemes_word D (lookups D proc1 ws, os', tr') word =
           (lookups D proc1 ws, os', tr' @ [(word, first_variant D word)]) \<and>
         count_list (dict_queries (lookups D proc1 ws)) word =
           count_list (dict_queries proc1) word \<and>
         fst (to_phonemes D t os'' proc1) = lookups D proc1 (str_split 0x20 t)"
proof -
  from to_phonemes_word_first[OF assms(1), of D os tr] assms(2)
  have p1: "proc1 = proc\<lparr>dict_queries := dict_queries proc @ [word],
              phoneme_cache := (phoneme_cache proc)(word \<mapsto> first_variant D word)\<rparr>"
    and t1: "tr1 = tr @ [(word, first_variant D word)]" by simp_all
  from p1 have c: "phoneme_cache proc1 word = Some (first_variant D word)" by simp
  from p1 have q: "dict_queries proc1 = dict_queries proc @ [word]" by simp
  from lookups_keep_cached[OF c, of D ws]
  have k: "phoneme_cache (lookups D proc1 ws) word = Some (first_variant D word)"
    and n: "count_list (dict_queries (lookups D proc1 ws)) word =
            count_list (dict_queries proc1) word" by simp_all
  from to_phonemes_word_cached[OF k, of D os' tr'] q c t1 n to_phonemes_lookups[of D t os'' proc1]
  show ?thesis by simp
qed

theorem lookup_queries_once_witness:
  "phoneme_cache fresh_process (ustr ''cat'') = None \<and>
   (\<exists>proc1.
      to_phonemes_word demo_dict (fresh_process, [], []) (ustr ''cat'')
        = (proc1, [], [(ustr ''cat'', [''K'', ''AE1'', ''T''])]) \<and>
      dict_queries proc1 = [ustr ''cat''] \<and>
      to_phonemes_word demo_dict (lookups demo_dict proc1 [ustr ''a'', ustr ''cat'', ustr ''zzz''], [], [])
        (ustr ''cat'')
        = (lookups demo_dict proc1 [ustr ''a'', ustr ''cat'', ustr ''zzz''], [],
           [(ustr ''cat'', [''K'', ''AE1'', ''T''])]) \<and>
      count_list (dict_queries (lookups demo_dict proc1 [ustr ''a'', ustr ''cat'', ustr ''zzz''])) (ustr ''cat'') = 1)"
proof -
  have n: "phoneme_cache fresh_process (ustr ''cat'') = None"
    by (simp add: fresh_process_def)
  have fv: "first_variant demo_dict (ustr ''cat'') = [''K'', ''AE1'', ''T'']"
    by (simp add: first_variant_def demo_dict_def ustr_def)
  have ne: "demo_dict (ustr ''cat'') \<noteq> []" by (simp add: demo_dict_def ustr_def)
  obtain proc1 os1 tr1 where r:
    "to_phonemes_word demo_dict (fresh_process, [], []) (ustr ''cat'') = (proc1, os1, tr1)"
    by (cases "to_phonemes_word demo_dict (fresh_process, [], []) (ustr ''cat'')") auto
  from to_phonemes_word_first[OF n, of demo_dict "[]" "[]"] r ne have o: "os1 = []" by simp
  have q0: "dict_queries fresh_process = []" by (simp add: fresh_process_def)
  from lookup_queries_once[OF n r, of "[ustr ''a'', ustr ''cat'', ustr ''zzz'']" "[]" "[]"] n r o fv q0
  show ?thesis by simp
qed


section \<open>Tokens and out-of-vocabulary words\<close>

text \<open>
  The words a Passage records are the distinct tokens that the cache did not hold when
  its transcription began and that have no variant in the dictionary.
\<close>

lemma foldl_to_phonemes_word_oovs:
  assumes "foldl (to_phonemes_word D) (proc, os, tr) ws = (proc', os', tr')"
    and "distinct os" and "set os \<subseteq> dom (phoneme_cache proc)"
  shows "set os' = set os \<union> {w \<in> set ws. phoneme_cache proc w = None \<and> D w = []} \<and>
         distinct os' \<and> set os' \<subseteq> dom (phoneme_cache proc')"
  using assms
proof (induction ws arbitrary: proc os tr)
  case Nil
  then show ?case by simp
next
  case (Cons w ws)
  obtain p1 o1 t1 where s: "to_phonemes_word D (proc, os, tr) w = (p1, o1, t1)"
    by (cases "to_phonemes_word D (proc, os, tr) w") auto
  from Cons.prems(1) s have f: "foldl (to_phonemes_word D) (p1, o1, t1) ws = (proc', os', tr')"
    by simp
  show ?case
  proof (cases "phoneme_cache proc w")
    case (Some v)
    with s have "p1 = proc" "o1 = os" by (simp_all add: to_phonemes_word_cached)
    with Cons.IH[OF f] Cons.prems(2,3) Some show ?thesis by auto
  next
    case None
    from to_phonemes_word_first[OF None, of D os tr] s
    have p1: "p1 = proc\<lparr>dict_queries := dict_queries proc @ [w],
              phoneme_cache := (phoneme_cache proc)(w \<mapsto> first_variant D w)\<rparr>"
      and o1: "o1 = (if D w = [] then os @ [w] else os)" by simp_all
    from None Cons.prems(3) have nw: "w \<notin> set os" by auto
    have d1: "distinct o1" using o1 nw Cons.prems(2) by simp
    have c1: "set o1 \<subseteq> dom (phoneme_cache p1)" using o1 p1 Cons.prems(3) by auto
    have e: "{x \<in> set ws. phoneme_cache p1 x = None \<and> D x = []}
           = {x \<in> set ws. x \<noteq> w \<and> phoneme_cache proc x = None \<and> D x = []}"
      by (auto simp: p1)
    from Cons.IH[OF f d1 c1] e None o1 show ?thesis by auto
  qed
qed

lemma to_phonemes_oovs:
  assumes "to_phonemes D t [] proc = (proc', os', tr')"
  shows "set os' = {w \<in> set (str_split 0x20 t). phoneme_cache proc w = None \<and> D w = []}"
    and "distinct os'"
  using foldl_to_phonemes_word_oovs[of D proc "[]" "[]" "str_split 0x20 t" proc' os' tr'] assms
  by (simp_all add: to_phonemes_def)

text \<open>
  C3. The empty cleaned text splits into one token, the empty string:
  \<^verbatim>\<open>''.split(' ')\<close> is \<^verbatim>\<open>['']\<close>. A Passage built from the empty text in a fresh process
  has a transcription of one pair and \<^verbatim>\<open>n_words = 1\<close>, and the empty string is looked up
  in the dictionary and recorded as its one out-of-vocabulary word
\<close>

theorem empty_text_one_token:
  "str_split 0x20 (clean_text ascii_tables []) = [[]] \<and>
   map_sum id (\<lambda>(p, proc). (phon_trans p, n_words p, oovs p, dict_queries proc))
     (passage_init ascii_tables demo_dict Map.empty [] None True fresh_process)
   = Inr ([([], [])], 1, [[]], [[]])"
  by code_simp

text \<open>
  C4. Two Passages built one after the other in one process. The word
  \<^verbatim>\<open>zzz\<close> has no variant in the dictionary. The first Passage records it once, though it
  occurs twice. The second Passage contains it too, with an empty variant from the cache,
  and records nothing: the branch for a cached word never appends to \<^verbatim>\<open>self.oovs\<close>
\<close>

theorem cached_oov_not_recorded:
  "(case passage_init ascii_tables demo_dict Map.empty (ustr ''zzz cat zzz'') None True fresh_process of
      Inl e \<Rightarrow> False
    | Inr (p1, proc1) \<Rightarrow>
        oovs p1 = [ustr ''zzz''] \<and>
        (case passage_init ascii_tables demo_dict Map.empty (ustr ''zzz cat'') None True proc1 of
           Inl e \<Rightarrow> False
         | Inr (p2, proc2) \<Rightarrow>
             phon_trans p2 = [(ustr ''zzz'', []), (ustr ''cat'', [''K'', ''AE1'', ''T''])] \<and>
             oovs p2 = []))"
  by code_simp

section \<open>Text or path\<close>

lemma basename_ex: "basename (ustr ''texts/cat.txt'') = ustr ''cat.txt''"
  by code_simp

text \<open>
  C10. The constructor always returns a Passage, and what it takes as its text
  depends on the argument only through the lookup of the argument as a path among the
  regular files: when there is such a file, the cleaned content of the file, and the
  base name of the path as the name unless a name is given; when there is none, the
  cleaned argument itself and the name as given
\<close>

theorem text_or_path_by_isfile:
  "\<exists>p proc'. passage_init U D files input_data nm ig proc = Inr (p, proc') \<and>
     passage_text p =
       clean_text U (case files input_data of Some content \<Rightarrow> content | None \<Rightarrow> input_data) \<and>
     name p =
       (case files input_data of
          Some content \<Rightarrow> (if nm = None then Some (basename input_data) else nm)
        | None \<Rightarrow> nm)"
proof -
  from passage_init_tables[of U D files input_data nm ig proc]
  obtain p proc' where r: "passage_init U D files input_data nm ig proc = Inr (p, proc')"
    by blast
  then have "passage_text p =
       clean_text U (case files input_data of Some content \<Rightarrow> content | None \<Rightarrow> input_data) \<and>
     name p =
       (case files input_data of
          Some content \<Rightarrow> (if nm = None then Some (basename input_data) else nm)
        | None \<Rightarrow> nm)"
    by (auto simp: passage_init_def read_input_text_def Let_def
        split: option.splits sum.splits prod.splits)
  with r show ?thesis by blast
qed

lemma text_or_path_example:
  "map_sum id (\<lambda>(p, proc). (name p, passage_text p))
     (passage_init ascii_tables demo_dict [ustr ''cat'' \<mapsto> ustr ''The  sat.''] (ustr ''cat'') None True
        fresh_process)
   = Inr (Some (ustr ''cat''), ustr ''the sat'')"
  by code_simp


section \<open>Exporting the out-of-vocabulary words\<close>

lemma str_split_no_sep: "sep \<notin> set w \<Longrightarrow> str_split sep w = [w]"
  by (induction w) auto

lemma str_split_ne: "str_split sep s \<noteq> []"
  by (induction s) (auto split: list.splits)

lemma str_split_append_sep:
  "sep \<notin> set w \<Longrightarrow> str_split sep (w @ sep # rest) = w # str_split sep rest"
  by (induction w) (auto split: list.splits)

lemma str_split_join:
  "ws \<noteq> [] \<Longrightarrow> \<forall>w \<in> set ws. sep \<notin> set w \<Longrightarrow> str_split sep (str_join [sep] ws) = ws"
proof (induction "[sep]" ws rule: str_join.induct)
  case 1
  then show ?case by simp
next
  case (2 w)
  then show ?case by (simp add: str_split_no_sep)
next
  case (3 w v vs)
  then show ?case by (simp add: str_split_append_sep)
qed

text \<open>
  C8. With no out-of-vocabulary word, \<^verbatim>\<open>export_oovs\<close> writes no file and prints
  the one message. Otherwise it prints nothing and writes one file, the others left as
  they are: the file at \<open>outpath\<close>, or \<^verbatim>\<open>oovs.txt\<close> under the directory of the corpus
  when \<open>outpath\<close> is \<^verbatim>\<open>None\<close>. Its content is the words joined by newlines, so that, no
  word holding a newline, its lines are the words in order
\<close>

theorem export_oovs_effect:
  "(corpus_oovs c = [] \<longrightarrow>
      disk (export_oovs c outpath out) = disk out \<and>
      printed (export_oovs c outpath out) = printed out @ [ustr ''No OOV words in the corpus.'']) \<and>
   (corpus_oovs c \<noteq> [] \<longrightarrow>
      (let target = (case outpath of None \<Rightarrow> directory c @ ustr ''/oovs.txt'' | Some path \<Rightarrow> path)
       in disk (export_oovs c outpath out) =
            (disk out)(target \<mapsto> str_join [0x0A] (corpus_oovs c)) \<and>
          printed (export_oovs c outpath out) = printed out \<and>
          ((\<forall>w \<in> set (corpus_oovs c). 0x0A \<notin> set w) \<longrightarrow>
             map_option (str_split 0x0A) (disk (export_oovs c outpath out) target)
               = Some (corpus_oovs c))))"
  by (auto simp: export_oovs_def Let_def str_split_join split: option.splits)

theorem export_oovs_effect_witness:
  "disk (export_oovs (demo_corpus\<lparr>corpus_oovs := []\<rparr>) None no_effects) = Map.empty \<and>
   printed (export_oovs (demo_corpus\<lparr>corpus_oovs := []\<rparr>) None no_effects)
     = [ustr ''No OOV words in the corpus.''] \<and>
   disk (export_oovs demo_corpus None no_effects)
     = [ustr ''texts/oovs.txt'' \<mapsto> [122, 122, 122, 10, 113, 113, 113]] \<and>
   printed (export_oovs demo_corpus None no_effects) = [] \<and>
   disk (export_oovs demo_corpus (Some (ustr ''out.txt'')) no_effects)
     = [ustr ''out.txt'' \<mapsto> [122, 122, 122, 10, 113, 113, 113]] \<and>
   map_option (str_split 0x0A) (disk (export_oovs demo_corpus None no_effects) (ustr ''texts/oovs.txt''))
     = Some [ustr ''zzz'', ustr ''qqq'']"
  using export_oovs_effect[of "demo_corpus\<lparr>corpus_oovs := []\<rparr>" None no_effects]
    export_oovs_effect[of demo_corpus None no_effects]
    export_oovs_effect[of demo_corpus "Some (ustr ''out.txt'')" no_effects]
  by (simp add: demo_corpus_def no_effects_def ustr_def Let_def)


section \<open>The text normaliser\<close>

lemma set_collapse_whitespace: "set (collapse_whitespace U s) \<subseteq> insert 0x20 (set s)"
proof (induction U s rule: collapse_whitespace.induct)
  case (1 U)
  then show ?case by simp
next
  case (2 U c cs)
  have "set (dropWhile (is_space U) cs) \<subseteq> set cs" by (rule set_dropWhileD[THEN subsetI])
  with 2 show ?case by auto
qed

lemma collapse_whitespace_hd:
  "s = [] \<or> \<not> is_space U (hd s) \<Longrightarrow>
     collapse_whitespace U s = [] \<or> \<not> is_space U (hd (collapse_whitespace U s))"
  by (cases s) auto

lemma dropWhile_hd: "dropWhile P xs = [] \<or> \<not> P (hd (dropWhile P xs))"
  by (metis hd_dropWhile)

lemma single_spaces_collapse: "single_spaces U (collapse_whitespace U s)"
proof (induction U s rule: collapse_whitespace.induct)
  case (1 U)
  then show ?case by simp
next
  case (2 U c cs)
  show ?case
  proof (cases "is_space U c")
    case True
    with 2 collapse_whitespace_hd[OF dropWhile_hd[of "is_space U" cs]]
    show ?thesis by simp
  next
    case False
    with 2 show ?thesis by simp
  qed
qed

lemma collapse_fixed: "single_spaces U s \<Longrightarrow> collapse_whitespace U s = s"
proof (induction U s rule: collapse_whitespace.induct)
  case (1 U)
  then show ?case by simp
next
  case (2 U c cs)
  show ?case
  proof (cases "is_space U c")
    case True
    with 2(3) have c: "c = 0x20" and h: "cs = [] \<or> \<not> is_space U (hd cs)"
      and r: "single_spaces U cs" by auto
    from h have d: "dropWhile (is_space U) cs = cs" by (cases cs) auto
    with 2(1)[OF True] r True c show ?thesis by simp
  next
    case False
    with 2 show ?thesis by simp
  qed
qed

lemma single_spaces_append:
  "single_spaces U (xs @ ys) \<Longrightarrow> single_spaces U xs \<and> single_spaces U ys"
  by (induction xs) (auto simp: hd_append split: if_splits)

lemma strip_prefix_suffix:
  "\<exists>pre suf. s = pre @ strip U s @ suf"
proof -
  let ?z = "dropWhile (is_space U) s"
  have 1: "s = takeWhile (is_space U) s @ ?z" by simp
  have "rev ?z = takeWhile (is_space U) (rev ?z) @ dropWhile (is_space U) (rev ?z)" by simp
  then have "?z = rev (dropWhile (is_space U) (rev ?z)) @ rev (takeWhile (is_space U) (rev ?z))"
    by (metis rev_append rev_rev_ident)
  then have "?z = strip U s @ rev (takeWhile (is_space U) (rev ?z))" by (simp add: strip_def)
  with 1 show ?thesis by metis
qed

lemma single_spaces_strip: "single_spaces U s \<Longrightarrow> single_spaces U (strip U s)"
  using strip_prefix_suffix[of s U] single_spaces_append by metis

lemma set_strip: "set (strip U s) \<subseteq> set s"
  using strip_prefix_suffix[of s U] by (metis Un_upper1 Un_upper2 order_trans set_append)

lemma rev_dropWhile_rev_hd:
  "xs \<noteq> [] \<Longrightarrow> \<not> P (hd xs) \<Longrightarrow>
     rev (dropWhile P (rev xs)) \<noteq> [] \<and> hd (rev (dropWhile P (rev xs))) = hd xs"
proof (induction xs rule: rev_induct)
  case Nil
  then show ?case by simp
next
  case (snoc x xs)
  show ?case
  proof (cases "xs = []")
    case True
    with snoc.prems show ?thesis by simp
  next
    case False
    with snoc show ?thesis by (auto simp: hd_append)
  qed
qed

lemma dropWhile_fixed: "xs = [] \<or> \<not> P (hd xs) \<Longrightarrow> dropWhile P xs = xs"
  by (cases xs) auto

lemma strip_idem: "strip U (strip U s) = strip U s"
proof -
  define z where "z = dropWhile (is_space U) s"
  define w where "w = rev (dropWhile (is_space U) (rev z))"
  have sw: "strip U s = w" by (simp add: strip_def w_def z_def)
  have hz: "z = [] \<or> \<not> is_space U (hd z)"
    unfolding z_def by (rule dropWhile_hd)
  have hw: "w = [] \<or> \<not> is_space U (hd w)"
  proof (cases "z = []")
    case True
    then show ?thesis by (simp add: w_def)
  next
    case False
    with hz have nz: "\<not> is_space U (hd z)" by blast
    from rev_dropWhile_rev_hd[of z "is_space U", OF False nz]
    have "hd w = hd z" by (simp add: w_def)
    with nz show ?thesis by metis
  qed
  have a: "dropWhile (is_space U) w = w" by (rule dropWhile_fixed[of w "is_space U", OF hw])
  have b: "dropWhile (is_space U) (rev w) = rev w"
    by (simp add: w_def dropWhile_idem)
  have "strip U w = w" by (simp add: strip_def a b)
  with sw show ?thesis by simp
qed

lemma replace_char_absent: "a \<notin> set s \<Longrightarrow> replace_char a b s = s"
  by (induction s) (auto simp: replace_char_def)

lemma set_replace_char: "a \<noteq> b \<Longrightarrow> set (replace_char a b s) \<subseteq> insert b (set s - {a})"
  by (auto simp: replace_char_def)

lemma remove_punctuation_fixed:
  "\<forall>c \<in> set s. is_word U c \<or> is_space U c \<or> c = 0x27 \<Longrightarrow> remove_punctuation U s = s"
  by (simp add: remove_punctuation_def)

lemma clean_text_chars:
  assumes "c \<in> set (clean_text U x)"
  shows "c = 0x20 \<or>
         (c \<noteq> 0x0A \<and> c \<noteq> 0x2019 \<and> (is_word U c \<or> is_space U c \<or> c = 0x27) \<and>
          (c = 0x27 \<or> c \<in> set (lower U x)))"
proof -
  define t1 where "t1 = replace_char 0x0A 0x20 (lower U x)"
  define t2 where "t2 = replace_char 0x2019 0x27 t1"
  define t3 where "t3 = remove_punctuation U t2"
  have ct: "clean_text U x = strip U (collapse_whitespace U t3)"
    by (simp add: clean_text_def Let_def t1_def t2_def t3_def)
  from assms ct set_strip[of U "collapse_whitespace U t3"] set_collapse_whitespace[of U t3]
  have "c = 0x20 \<or> c \<in> set t3" by auto
  moreover have "set t3 \<subseteq> {c \<in> set t2. is_word U c \<or> is_space U c \<or> c = 0x27}"
    by (auto simp: t3_def remove_punctuation_def)
  moreover have "set t2 \<subseteq> insert 0x27 (set t1 - {0x2019})"
    unfolding t2_def by (rule set_replace_char) simp
  moreover have "set t1 \<subseteq> insert 0x20 (set (lower U x) - {0x0A})"
    unfolding t1_def by (rule set_replace_char) simp
  ultimately show ?thesis by auto
qed

lemma clean_text_single_spaces: "single_spaces U (clean_text U x)"
  by (simp add: clean_text_def Let_def single_spaces_strip single_spaces_collapse)

text \<open>
  C6. \<^verbatim>\<open>__clean_text\<close> is idempotent on every string, for any tables of
  \<^verbatim>\<open>str.lower\<close>, \<^verbatim>\<open>\w\<close> and \<^verbatim>\<open>\s\<close> with the properties \<open>tables_ok\<close>, which Python's
  have: cleaning a cleaned text changes nothing.
\<close>

theorem clean_text_idempotent:
  assumes "tables_ok U"
  shows "clean_text U (clean_text U x) = clean_text U x"
proof -
  define r where "r = clean_text U x"
  from assms have sp: "is_space U 0x20" and f20: "lower_fixed U 0x20" and f27: "lower_fixed U 0x27"
    and lf: "\<And>s. list_all (lower_fixed U) (lower U s)"
    and lid: "\<And>s. list_all (lower_fixed U) s \<Longrightarrow> lower U s = s"
    by (simp_all add: tables_ok_def)
  have chars: "\<And>c. c \<in> set r \<Longrightarrow> c = 0x20 \<or>
         (c \<noteq> 0x0A \<and> c \<noteq> 0x2019 \<and> (is_word U c \<or> is_space U c \<or> c = 0x27) \<and>
          (c = 0x27 \<or> c \<in> set (lower U x)))"
    unfolding r_def by (rule clean_text_chars)
  have "list_all (lower_fixed U) r"
    unfolding list_all_iff
  proof
    fix c assume "c \<in> set r"
    from chars[OF this] f20 f27 lf[of x] show "lower_fixed U c"
      by (auto simp: list_all_iff)
  qed
  then have 1: "lower U r = r" by (rule lid)
  have "0x0A \<notin> set r" using chars[of "0x0A"] by auto
  then have 2: "replace_char 0x0A 0x20 r = r" by (rule replace_char_absent)
  have "0x2019 \<notin> set r" using chars[of "0x2019"] by auto
  then have 3: "replace_char 0x2019 0x27 r = r" by (rule replace_char_absent)
  have "\<forall>c \<in> set r. is_word U c \<or> is_space U c \<or> c = 0x27"
    using chars sp by blast
  then have 4: "remove_punctuation U r = r" by (rule remove_punctuation_fixed)
  have 5: "collapse_whitespace U r = r"
    unfolding r_def by (rule collapse_fixed[OF clean_text_single_spaces])
  have 6: "strip U r = r"
    unfolding r_def clean_text_def Let_def by (rule strip_idem)
  have "clean_text U r = r"
    by (simp add: clean_text_def[of U r] Let_def 1 2 3 4 5 6)
  then show ?thesis by (simp add: r_def)
qed

lemma tables_ok_ascii: "tables_ok ascii_tables"
  by (auto simp: tables_ok_def ascii_tables_def lower_fixed_def list_all_iff map_idI)

theorem clean_text_idempotent_witness:
  "tables_ok ascii_tables \<and>
   clean_text ascii_tables (ustr ''  The  cat'' @ [0x2019] @ ustr ''s'' @ [0x0A] @ ustr '' SAT. '')
     = ustr ''the cat's sat'' \<and>
   clean_text ascii_tables
     (clean_text ascii_tables (ustr ''  The  cat'' @ [0x2019] @ ustr ''s'' @ [0x0A] @ ustr '' SAT. ''))
     = clean_text ascii_tables (ustr ''  The  cat'' @ [0x2019] @ ustr ''s'' @ [0x0A] @ ustr '' SAT. '')"
proof -
  have e: "clean_text ascii_tables (ustr ''  The  cat'' @ [0x2019] @ ustr ''s'' @ [0x0A] @ ustr '' SAT. '')
     = ustr ''the cat's sat''"
    by code_simp
  from clean_text_idempotent[OF tables_ok_ascii,
      of "ustr ''  The  cat'' @ [0x2019] @ ustr ''s'' @ [0x0A] @ ustr '' SAT. ''"]
    tables_ok_ascii e
  show ?thesis by blast
qed


end
